theory Spec2Isabelle
  imports Complex_Main "HOL-Library.Word"
begin

unbundle bit_operations_syntax

section \<open>The USB sniffer (backend, \<open>main.c\<close>, rumblesniffer v0.7)\<close>

text \<open>
  The sniffer reads the usbmon text stream in chunks of at most 1024 bytes into one buffer
  and compares the 8 characters of \<open>PATTERN\<close> at every offset of the bytes just read. On a
  match it writes the two bytes of the "GO" signal to the I2C device and sleeps 10 ms.
\<close>

type_synonym byte = "8 word"

text \<open>\<open>#define PATTERN "eb090140"\<close>: the eight ASCII characters e, b, 0, 9, 0, 1, 4, 0.\<close>

definition PATTERN :: "byte list" where
  "PATTERN = [0x65, 0x62, 0x30, 0x39, 0x30, 0x31, 0x34, 0x30]"

text \<open>\<open>#define I2C_ADDR 0x5a\<close>, bound to the descriptor once by \<open>ioctl(i2c_fd, I2C_SLAVE, I2C_ADDR)\<close>.\<close>

definition I2C_ADDR :: nat where
  "I2C_ADDR = 0x5a"

text \<open>\<open>unsigned char data_to_send[] = {0x0C, 0x01}\<close>\<close>

definition data_to_send :: "byte list" where
  "data_to_send = [0x0C, 0x01]"

datatype fd = Usbmon_fd | I2c_fd

text \<open>
  What the process does to the outside world, in order: a \<open>perror\<close> line, the two
  \<open>printf\<close> lines, a \<open>write\<close> on the I2C descriptor (with the slave address it is bound
  to), a \<open>usleep\<close> and a \<open>close\<close>.
\<close>

datatype event =
    Perror string
  | PatternFound nat
  | I2CWrite nat "byte list"
  | SignalSent "byte list"
  | Usleep nat
  | Close fd

text \<open>
  \<open>send_i2c_signal\<close>: one \<open>write\<close> of \<open>data\<close>; \<open>r\<close> is what \<open>write\<close> returned
  (\<open>-1\<close> on failure, else the number of bytes written). The test \<open>write(...) != length\<close>
  compares a \<open>ssize_t\<close> with a \<open>size_t\<close>, so \<open>r\<close> is converted to unsigned 64 bits first.
  The function returns nothing: a failure is reported by \<open>perror\<close> only.
\<close>

definition send_i2c_signal :: "int \<Rightarrow> byte list \<Rightarrow> event list" where
  "send_i2c_signal r data =
     I2CWrite I2C_ADDR data #
       (if r mod 2 ^ 64 \<noteq> int (length data)
        then [Perror ''Error sending I2C signal'']
        else [SignalSent data])"

text \<open>
  The state of \<open>main\<close> inside its loop: the 1024-byte \<open>buffer\<close> (never cleared between
  reads), the number of \<open>read\<close> and of bus \<open>write\<close> calls made so far, the events so far, and
  (as instrumentation only) the buffer offsets that were handed to \<open>memcmp\<close>.
\<close>

record sniffer =
  buffer :: "byte list"
  reads :: nat
  writes :: nat
  cmps :: "nat list"
  trace :: "event list"

text \<open>\<open>memcmp(&buffer[i], PATTERN, 8) == 0\<close>\<close>

definition memcmp8 :: "byte list \<Rightarrow> nat \<Rightarrow> bool" where
  "memcmp8 buf i = (take 8 (drop i buf) = PATTERN)"

text \<open>
  The body of the \<open>if\<close> at a match: the \<open>printf\<close>, \<open>send_i2c_signal\<close> and the
  \<open>usleep(10000)\<close>. The bus is a function from the number of earlier writes to the return
  value of this \<open>write\<close>.
\<close>

definition dispatch :: "(nat \<Rightarrow> int) \<Rightarrow> nat \<Rightarrow> sniffer \<Rightarrow> sniffer" where
  "dispatch bus i st =
     st\<lparr>writes := Suc (writes st),
        trace := trace st @ PatternFound i
                   # send_i2c_signal (bus (writes st)) data_to_send @ [Usleep 10000]\<rparr>"

text \<open>
  \<open>for (ssize_t i = 0; i < bytesRead; i++) if (i + 7 < bytesRead && memcmp(...) == 0) {...}\<close>.
  The \<open>&&\<close> evaluates \<open>memcmp\<close> only where \<open>i + 7 < bytesRead\<close>. \<open>bytesRead\<close> is at most
  1024 here, so \<open>i + 7\<close> does not overflow.
\<close>

function scan_loop :: "(nat \<Rightarrow> int) \<Rightarrow> nat \<Rightarrow> nat \<Rightarrow> sniffer \<Rightarrow> sniffer" where
  "scan_loop bus bytesRead i st =
     (if i < bytesRead then
        scan_loop bus bytesRead (Suc i)
          (if i + 7 < bytesRead then
             (let st' = st\<lparr>cmps := cmps st @ [i]\<rparr>
              in if memcmp8 (buffer st') i then dispatch bus i st' else st')
           else st)
      else st)"
  by pat_completeness auto
termination
  by (relation "measure (\<lambda>(bus, bytesRead, i, st). bytesRead - i)") auto

declare scan_loop.simps [simp del]

text \<open>
  One result of \<open>read(usbmon_fd, buffer, sizeof(buffer))\<close>: \<open>-1\<close>, or the bytes that were
  stored at the start of the buffer (at most 1024 of them, possibly none).
\<close>

datatype read_result = ReadFail | ReadOk "byte list"

definition read_into :: "byte list \<Rightarrow> byte list \<Rightarrow> byte list" where
  "read_into chunk buf = chunk @ drop (length chunk) buf"

text \<open>
  What \<open>main\<close> has done once the given reads have returned. The loop is \<open>while (1)\<close>: it
  leaves only through the \<open>return 1\<close> after a failed read; while every read succeeds the
  process is still in the loop, blocked in the next \<open>read\<close>.
\<close>

datatype outcome = Running sniffer | Exited int sniffer

fun main_loop :: "(nat \<Rightarrow> int) \<Rightarrow> read_result list \<Rightarrow> sniffer \<Rightarrow> outcome" where
  "main_loop bus [] st = Running st"
| "main_loop bus (ReadFail # rs) st =
     Exited 1 (st\<lparr>reads := Suc (reads st),
                  trace := trace st @ [Perror ''Error reading from usbmon'',
                                       Close Usbmon_fd, Close I2c_fd]\<rparr>)"
| "main_loop bus (ReadOk chunk # rs) st =
     main_loop bus rs
       (scan_loop bus (length chunk) 0
          (st\<lparr>buffer := read_into chunk (buffer st), reads := Suc (reads st)\<rparr>))"

fun state_of :: "outcome \<Rightarrow> sniffer" where
  "state_of (Running st) = st"
| "state_of (Exited code st) = st"

text \<open>Projections of a trace.\<close>

definition found_positions :: "event list \<Rightarrow> nat list" where
  "found_positions tr = concat (map (\<lambda>e. case e of PatternFound i \<Rightarrow> [i] | _ \<Rightarrow> []) tr)"

definition bus_writes :: "event list \<Rightarrow> (nat \<times> byte list) list" where
  "bus_writes tr = concat (map (\<lambda>e. case e of I2CWrite a d \<Rightarrow> [(a, d)] | _ \<Rightarrow> []) tr)"

text \<open>
  The stream-level notions: the signature occurs in \<open>xs\<close> at offset \<open>p\<close>; all such offsets;
  and whether the eight bytes at stream offset \<open>p\<close> lie within one chunk of a chunked stream.
\<close>

definition occurs_at :: "byte list \<Rightarrow> nat \<Rightarrow> bool" where
  "occurs_at xs p = (take 8 (drop p xs) = PATTERN)"

definition occurrences :: "byte list \<Rightarrow> nat list" where
  "occurrences xs = filter (occurs_at xs) [0..<length xs]"

fun inside_chunk :: "byte list list \<Rightarrow> nat \<Rightarrow> bool" where
  "inside_chunk [] p = False"
| "inside_chunk (c # cs) p =
     (if p < length c then p + 8 \<le> length c else inside_chunk cs (p - length c))"

text \<open>The events of the dispatches at the offsets \<open>js\<close>, the first being bus write number \<open>w\<close>.\<close>

fun dispatch_events :: "(nat \<Rightarrow> int) \<Rightarrow> nat \<Rightarrow> nat list \<Rightarrow> event list" where
  "dispatch_events bus w [] = []"
| "dispatch_events bus w (j # js) =
     PatternFound j # send_i2c_signal (bus w) data_to_send @ [Usleep 10000]
       @ dispatch_events bus (Suc w) js"

text \<open>The state on entering the loop; \<open>buf\<close> is whatever the uninitialised array holds.\<close>

definition init :: "byte list \<Rightarrow> sniffer" where
  "init buf = \<lparr>buffer = buf, reads = 0, writes = 0, cmps = [], trace = []\<rparr>"

text \<open>
  The chunks of the successful reads before the first failed one, and the events of the
  \<open>return 1\<close> path when a read of the feed fails.
\<close>

fun ok_prefix :: "read_result list \<Rightarrow> byte list list" where
  "ok_prefix [] = []"
| "ok_prefix (ReadFail # rs) = []"
| "ok_prefix (ReadOk c # rs) = c # ok_prefix rs"

fun exit_events :: "read_result list \<Rightarrow> event list" where
  "exit_events [] = []"
| "exit_events (ReadFail # rs) =
     [Perror ''Error reading from usbmon'', Close Usbmon_fd, Close I2c_fd]"
| "exit_events (ReadOk c # rs) = exit_events rs"

text \<open>The events of scanning the chunks \<open>cs\<close> one after the other.\<close>

fun run_events :: "(nat \<Rightarrow> int) \<Rightarrow> nat \<Rightarrow> byte list list \<Rightarrow> event list" where
  "run_events bus w [] = []"
| "run_events bus w (c # cs) =
     dispatch_events bus w (occurrences c) @ run_events bus (w + length (occurrences c)) cs"

text \<open>More projections: the \<open>perror\<close> lines of failed bus writes, and the bus writes and sleeps.\<close>

definition send_errors :: "event list \<Rightarrow> nat" where
  "send_errors tr = length (filter (\<lambda>e. e = Perror ''Error sending I2C signal'') tr)"

definition writes_and_sleeps :: "event list \<Rightarrow> event list" where
  "writes_and_sleeps tr =
     filter (\<lambda>e. case e of I2CWrite a d \<Rightarrow> True | Usleep t \<Rightarrow> True | _ \<Rightarrow> False) tr"

text \<open>A bus on which every write succeeds, and one on which every write fails.\<close>

definition bus_ok :: "nat \<Rightarrow> int" where
  "bus_ok k = 2"

definition bus_dead :: "nat \<Rightarrow> int" where
  "bus_dead k = - 1"


section \<open>The sequencer step codec of the front end (\<open>src/index.tsx\<close>)\<close>

text \<open>
  A JavaScript \<open>number\<close>: a finite value, positive or negative infinity, or \<open>NaN\<close>. A
  finite value is modelled as a real (every finite double is one, and the operations used
  here, applied to the values that arise, are exact); minus zero is not told apart from
  zero, which none of these operations does either.
\<close>

datatype number = Num real | PInf | NInf | NaN

text \<open>
  \<open>type Step = { isWait: boolean; val: number }\<close>: an effect id (1..127) or a wait in
  milliseconds (0..1270).
\<close>

record Step =
  isWait :: bool
  val :: number

text \<open>Rounding a finite value towards zero.\<close>

definition trunc_int :: "real \<Rightarrow> int" where
  "trunc_int x = (if x < 0 then \<lceil>x\<rceil> else \<lfloor>x\<rfloor>)"

text \<open>\<open>Math.trunc\<close> and \<open>Math.floor\<close>: infinities and \<open>NaN\<close> are returned as they are.\<close>

fun Math_trunc :: "number \<Rightarrow> number" where
  "Math_trunc (Num x) = Num (real_of_int (trunc_int x))"
| "Math_trunc v = v"

fun Math_floor :: "number \<Rightarrow> number" where
  "Math_floor (Num x) = Num (real_of_int \<lfloor>x\<rfloor>)"
| "Math_floor v = v"

text \<open>\<open>Math.min\<close> and \<open>Math.max\<close> of two arguments: \<open>NaN\<close> as soon as one argument is \<open>NaN\<close>.\<close>

fun Math_min :: "number \<Rightarrow> number \<Rightarrow> number" where
  "Math_min NaN y = NaN"
| "Math_min x NaN = NaN"
| "Math_min NInf y = NInf"
| "Math_min x NInf = NInf"
| "Math_min PInf y = y"
| "Math_min x PInf = x"
| "Math_min (Num a) (Num b) = Num (min a b)"

fun Math_max :: "number \<Rightarrow> number \<Rightarrow> number" where
  "Math_max NaN y = NaN"
| "Math_max x NaN = NaN"
| "Math_max PInf y = PInf"
| "Math_max x PInf = PInf"
| "Math_max NInf y = y"
| "Math_max x NInf = x"
| "Math_max (Num a) (Num b) = Num (max a b)"

text \<open>The division \<open>ms / 10\<close>.\<close>

fun div10 :: "number \<Rightarrow> number" where
  "div10 (Num x) = Num (x / 10)"
| "div10 v = v"

text \<open>
  The conversion that the bitwise operators \<open>|\<close> and \<open>&\<close> apply to an operand: \<open>NaN\<close> and
  the infinities become 0, a finite value is rounded towards zero and wrapped to 32 bits
  two's complement. The operators then work on these integers.
\<close>

fun ToInt32 :: "number \<Rightarrow> int" where
  "ToInt32 (Num x) = (trunc_int x + 2 ^ 31) mod 2 ^ 32 - 2 ^ 31"
| "ToInt32 v = 0"

text \<open>
  The body of the loop of \<open>encodeSteps\<close>, the element pushed for one step:
  \<open>ms = Math.max(0, Math.min(1270, Math.trunc(s.val)))\<close>,
  \<open>ticks = Math.min(127, Math.floor(ms / 10))\<close> and \<open>out.push(0x80 | ticks)\<close> for a wait;
  \<open>id = Math.max(1, Math.min(127, Math.trunc(s.val)))\<close> and \<open>out.push(id)\<close> for an effect.
\<close>

definition step_byte :: "Step \<Rightarrow> number" where
  "step_byte s =
     (if isWait s then
        (let ms = Math_max (Num 0) (Math_min (Num 1270) (Math_trunc (val s)));
             ticks = Math_min (Num 127) (Math_floor (div10 ms))
         in Num (real_of_int (0x80 OR ToInt32 ticks)))
      else
        (let id' = Math_max (Num 1) (Math_min (Num 127) (Math_trunc (val s)))
         in id'))"

text \<open>
  \<open>encodeSteps\<close>: \<open>for (const s of steps.slice(0, 8)) out.push(...)\<close>, then \<open>return out\<close>
  (the source notes: "backend will append terminator 0x00 if needed").
\<close>

definition encodeSteps :: "Step list \<Rightarrow> number list" where
  "encodeSteps steps = foldl (\<lambda>out s. out @ [step_byte s]) [] (take 8 steps)"

text \<open>
  The decoder inside \<open>doLoad\<close>, one element of a loaded preset to one step of the editor:
  \<open>if (b & 0x80) { ticks = b & 0x7F; return { isWait: true, val: ticks * 10 } }\<close>, else
  \<open>{ isWait: false, val: Math.max(1, Math.min(127, b)) }\<close>; and the list
  \<open>uiSteps = steps.slice(0, 8).map(...)\<close>. (What \<open>doLoad\<close> then shows in the editor, one
  default step in place of an empty list, comes after the decoding and is not part of it.)
\<close>

definition ui_step :: "number \<Rightarrow> Step" where
  "ui_step b =
     (if ToInt32 b AND 0x80 \<noteq> 0
      then (let ticks = ToInt32 b AND 0x7F in \<lparr>isWait = True, val = Num (real_of_int (ticks * 10))\<rparr>)
      else \<lparr>isWait = False, val = Math_max (Num 1) (Math_min (Num 127) b)\<rparr>)"

definition doLoad_uiSteps :: "number list \<Rightarrow> Step list" where
  "doLoad_uiSteps bytes = map ui_step (take 8 bytes)"

text \<open>
  What the claims call a valid step: an Effect id is a whole number in 1..127, a Wait is a
  whole number of milliseconds in 0..1270 that is a multiple of 10.
\<close>

definition valid_step :: "Step \<Rightarrow> bool" where
  "valid_step s =
     (case val s of
        Num x \<Rightarrow> x = real_of_int \<lfloor>x\<rfloor> \<and>
          (if isWait s then 0 \<le> x \<and> x \<le> 1270 \<and> \<lfloor>x\<rfloor> mod 10 = 0
           else 1 \<le> x \<and> x \<le> 127)
      | _ \<Rightarrow> False)"

text \<open>
  In closed form, for stating what the encoder emits: the ticks it computes for a wait of
  value \<open>v\<close>, and the id it computes for an effect of a value \<open>v\<close> other than \<open>NaN\<close>.
\<close>

definition wait_ticks :: "number \<Rightarrow> int" where
  "wait_ticks v =
     (case v of
        Num x \<Rightarrow> max 0 (min 1270 (trunc_int x)) div 10
      | PInf \<Rightarrow> 127 | NInf \<Rightarrow> 0 | NaN \<Rightarrow> 0)"

definition effect_id :: "number \<Rightarrow> int" where
  "effect_id v =
     (case v of
        Num x \<Rightarrow> max 1 (min 127 (trunc_int x))
      | PInf \<Rightarrow> 127 | NInf \<Rightarrow> 1 | NaN \<Rightarrow> 0)"

subsection \<open>Library metadata and effect limits\<close>

record LibInfo =
  lib_id :: int
  lib_name :: string
  lib_note :: string
  effectMax :: int

definition LIBRARIES :: "LibInfo list" where
  "LIBRARIES =
     [\<lparr>lib_id = 0, lib_name = ''Empty'', lib_note = ''No ROM effects'', effectMax = 0\<rparr>,
      \<lparr>lib_id = 1, lib_name = ''ERM Library 1'', lib_note = ''Clicks / strong pulses'', effectMax = 127\<rparr>,
      \<lparr>lib_id = 2, lib_name = ''ERM Library 2'', lib_note = ''Sharp / crisp'', effectMax = 127\<rparr>,
      \<lparr>lib_id = 3, lib_name = ''ERM Library 3'', lib_note = ''Soft / smooth'', effectMax = 127\<rparr>,
      \<lparr>lib_id = 4, lib_name = ''ERM Library 4'', lib_note = ''Double / ramp patterns'', effectMax = 127\<rparr>,
      \<lparr>lib_id = 5, lib_name = ''ERM Library 5'', lib_note = ''Transitions / textures'', effectMax = 127\<rparr>,
      \<lparr>lib_id = 6, lib_name = ''LRA'', lib_note = ''LRA-tuned patterns'', effectMax = 64\<rparr>]"

definition EFFECT_ID_MAX :: int where
  "EFFECT_ID_MAX = 123"

text \<open>\<open>LIBRARIES.find(l => l.id === id) ?? LIBRARIES[0]\<close>\<close>

definition libById :: "int \<Rightarrow> LibInfo" where
  "libById i = (case find (\<lambda>l. lib_id l = i) LIBRARIES of Some l \<Rightarrow> l | None \<Rightarrow> LIBRARIES ! 0)"

subsection \<open>Programming the sequencer\<close>

datatype error = OutOfRange

text \<open>
  The controller as far as \<open>programSequence\<close> touches it: the selected library, the bus
  writes issued so far (address and bytes) and the sequencer register block of the device.
\<close>

record controller =
  library :: int
  bus_log :: "(nat \<times> number list) list"
  sequencer :: "number list"

text \<open>The comparison \<open>v > cap\<close> of a step value with a cap.\<close>

fun exceeds :: "number \<Rightarrow> int \<Rightarrow> bool" where
  "exceeds (Num x) cap = (real_of_int cap < x)"
| "exceeds PInf cap = True"
| "exceeds NInf cap = False"
| "exceeds NaN cap = False"

text \<open>
  Modelled from the spec: \<open>programSequence\<close> is the backend callable \<open>program_sequence\<close>,
  which the front end declares and calls but whose code is not among the sources. After the
  specification (component design, ActuatorController; error handling design): it validates
  the step count (at most 8) and each Effect id against the cap of the selected library and
  the global cap 123, rejecting with \<open>OutOfRange\<close> before any bus I/O; otherwise it encodes
  the steps (with the terminator byte 0x00 after fewer than 8 steps whose last byte is not
  already one) and writes the sequencer register block at each resolved address \<open>addrs\<close>.
  The library table, the global cap and the step encoder are the ones of the front end.
\<close>

definition programSequence ::
  "nat list \<Rightarrow> Step list \<Rightarrow> controller \<Rightarrow> (error + unit) \<times> controller" where
  "programSequence addrs steps c =
     (if 8 < length steps then (Inl OutOfRange, c)
      else if list_ex (\<lambda>s. \<not> isWait s \<and>
                (exceeds (val s) (effectMax (libById (library c)))
                 \<or> exceeds (val s) EFFECT_ID_MAX)) steps
      then (Inl OutOfRange, c)
      else
        (let out = encodeSteps steps;
             bytes = (if length steps < 8 \<and> (out = [] \<or> last out \<noteq> Num 0x00)
                      then out @ [Num 0x00] else out)
         in (Inr (), c\<lparr>bus_log := bus_log c @ map (\<lambda>a. (a, bytes)) addrs,
                        sequencer := bytes\<rparr>)))"


section \<open>The sniffer: what a run does\<close>

lemma scan_loop_fields:
  "scan_loop bus n i st =
     st\<lparr>writes := writes st + length (filter (\<lambda>j. j + 7 < n \<and> memcmp8 (buffer st) j) [i..<n]),
        cmps := cmps st @ filter (\<lambda>j. j + 7 < n) [i..<n],
        trace := trace st @ dispatch_events bus (writes st)
                   (filter (\<lambda>j. j + 7 < n \<and> memcmp8 (buffer st) j) [i..<n])\<rparr>"
proof (induction bus n i st rule: scan_loop.induct)
  case (1 bus n i st)
  show ?case
  proof (cases "i < n")
    case False
    then show ?thesis by (simp add: scan_loop.simps [of bus n i st])
  next
    case True
    then have upt: "[i..<n] = i # [Suc i..<n]" by (rule upt_conv_Cons)
    show ?thesis
      using True "1.IH"
      by (simp add: scan_loop.simps [of bus n i st] upt dispatch_def Let_def)
  qed
qed

lemma occurs_at_length: "occurs_at xs p \<Longrightarrow> p + 8 \<le> length xs"
proof -
  assume "occurs_at xs p"
  then have "length (take 8 (drop p xs)) = 8" by (simp add: occurs_at_def PATTERN_def)
  then show ?thesis by simp
qed

lemma occurs_at_append_left: "p + 8 \<le> length a \<Longrightarrow> occurs_at (a @ b) p = occurs_at a p"
  by (simp add: occurs_at_def)

lemma occurs_at_append_right: "occurs_at (a @ b) (length a + q) = occurs_at b q"
  by (simp add: occurs_at_def)

lemma memcmp8_read_into:
  "j + 7 < length chunk \<Longrightarrow> memcmp8 (read_into chunk buf) j = occurs_at chunk j"
  by (simp add: memcmp8_def read_into_def occurs_at_def)

lemma filter_scan_occurrences:
  "filter (\<lambda>j. j + 7 < length chunk \<and> memcmp8 (read_into chunk buf) j) [0..<length chunk]
     = occurrences chunk"
  unfolding occurrences_def
proof (rule filter_cong [OF refl])
  fix j
  show "(j + 7 < length chunk \<and> memcmp8 (read_into chunk buf) j) = occurs_at chunk j"
  proof (cases "j + 7 < length chunk")
    case True
    then show ?thesis by (simp add: memcmp8_read_into)
  next
    case False
    then have "\<not> occurs_at chunk j" using occurs_at_length [of chunk j] by auto
    with False show ?thesis by simp
  qed
qed


lemma scan_chunk:
  "scan_loop bus (length chunk) 0 (st\<lparr>buffer := read_into chunk (buffer st), reads := Suc (reads st)\<rparr>) =
     st\<lparr>buffer := read_into chunk (buffer st), reads := Suc (reads st),
        writes := writes st + length (occurrences chunk),
        cmps := cmps st @ filter (\<lambda>j. j + 7 < length chunk) [0..<length chunk],
        trace := trace st @ dispatch_events bus (writes st) (occurrences chunk)\<rparr>"
  by (simp add: scan_loop_fields filter_scan_occurrences)


lemma main_loop_trace:
  "trace (state_of (main_loop bus rs st)) =
     trace st @ run_events bus (writes st) (ok_prefix rs) @ exit_events rs"
  by (induction bus rs st rule: main_loop.induct) (simp_all add: scan_chunk)

lemma main_loop_reads:
  "reads (state_of (main_loop bus rs st)) =
     reads st + length (ok_prefix rs) + (if ReadFail \<in> set rs then 1 else 0)"
  by (induction bus rs st rule: main_loop.induct) (simp_all add: scan_chunk)

lemma main_loop_Running:
  "ReadFail \<notin> set rs \<Longrightarrow> main_loop bus rs st = Running (state_of (main_loop bus rs st))"
  by (induction bus rs st rule: main_loop.induct) simp_all

lemma main_loop_Exited:
  "ReadFail \<in> set rs \<Longrightarrow> main_loop bus rs st = Exited 1 (state_of (main_loop bus rs st))"
  by (induction bus rs st rule: main_loop.induct) simp_all

lemma main_loop_ignores_rest:
  "main_loop bus (map ReadOk chunks @ ReadFail # rest) st =
     main_loop bus (map ReadOk chunks @ [ReadFail]) st"
  by (induction chunks arbitrary: st) simp_all

lemma ok_prefix_map [simp]: "ok_prefix (map ReadOk chunks @ rs) = chunks @ ok_prefix rs"
  by (induction chunks) simp_all

lemma exit_events_map [simp]: "exit_events (map ReadOk chunks @ rs) = exit_events rs"
  by (induction chunks) simp_all

lemma found_positions_append [simp]:
  "found_positions (a @ b) = found_positions a @ found_positions b"
  by (simp add: found_positions_def)

lemma bus_writes_append [simp]:
  "bus_writes (a @ b) = bus_writes a @ bus_writes b"
  by (simp add: bus_writes_def)

lemma found_positions_dispatch_events: "found_positions (dispatch_events bus w js) = js"
  by (induction js arbitrary: w) (simp_all add: found_positions_def send_i2c_signal_def)

lemma bus_writes_dispatch_events:
  "bus_writes (dispatch_events bus w js) = replicate (length js) (I2C_ADDR, data_to_send)"
  by (induction js arbitrary: w) (simp_all add: bus_writes_def send_i2c_signal_def)

lemma found_positions_run_events:
  "found_positions (run_events bus w chunks) = concat (map occurrences chunks)"
  by (induction chunks arbitrary: w)
     (simp_all add: found_positions_dispatch_events, simp add: found_positions_def)

lemma bus_writes_run_events:
  "bus_writes (run_events bus w chunks) =
     replicate (length (concat (map occurrences chunks))) (I2C_ADDR, data_to_send)"
  by (induction chunks arbitrary: w)
     (simp_all add: bus_writes_dispatch_events replicate_add, simp add: bus_writes_def)

lemma occurrences_chunked:
  "length (concat (map occurrences chunks)) =
     length (filter (inside_chunk chunks) (occurrences (concat chunks)))"
proof (induction chunks)
  case Nil
  show ?case by (simp add: occurrences_def)
next
  case (Cons c cs)
  let ?r = "concat cs"
  have split: "[0..<length c + length ?r] = [0..<length c] @ map (\<lambda>q. length c + q) [0..<length ?r]"
  proof -
    have "map (\<lambda>q. length c + q) [0..<length ?r] = map (\<lambda>q. q + length c) [0..<length ?r]"
      by (simp add: add.commute)
    also have "\<dots> = [length c..<length ?r + length c]" by (rule map_add_upt)
    finally have "map (\<lambda>q. length c + q) [0..<length ?r] = [length c..<length c + length ?r]"
      by (simp only: add.commute)
    moreover have "[0..<length c + length ?r] = [0..<length c] @ [length c..<length c + length ?r]"
      by (rule upt_add_eq_append) simp
    ultimately show ?thesis by simp
  qed
  have left: "filter (\<lambda>p. occurs_at (c @ ?r) p \<and> inside_chunk (c # cs) p) [0..<length c]
                = occurrences c"
    unfolding occurrences_def
  proof (rule filter_cong [OF refl])
    fix p assume "p \<in> set [0..<length c]"
    then have lt: "p < length c" by simp
    show "(occurs_at (c @ ?r) p \<and> inside_chunk (c # cs) p) = occurs_at c p"
    proof (cases "p + 8 \<le> length c")
      case True
      with lt show ?thesis by (simp add: occurs_at_append_left)
    next
      case False
      then have "\<not> occurs_at c p" using occurs_at_length [of c p] by auto
      with lt False show ?thesis by simp
    qed
  qed
  have right: "filter (\<lambda>p. occurs_at (c @ ?r) p \<and> inside_chunk (c # cs) p)
                  (map (\<lambda>q. length c + q) [0..<length ?r])
                = map (\<lambda>q. length c + q) (filter (inside_chunk cs) (occurrences ?r))"
    by (simp add: filter_map comp_def occurs_at_append_right occurrences_def conj_commute)
  have "filter (inside_chunk (c # cs)) (occurrences (concat (c # cs)))
          = occurrences c @ map (\<lambda>q. length c + q) (filter (inside_chunk cs) (occurrences ?r))"
    unfolding occurrences_def [of "concat (c # cs)"]
    using left right by (simp add: split conj_commute)
  then have "length (filter (inside_chunk (c # cs)) (occurrences (concat (c # cs))))
          = length (occurrences c) + length (filter (inside_chunk cs) (occurrences ?r))"
    by (simp only: length_append length_map)
  with Cons.IH show ?case by (simp del: inside_chunk.simps)
qed

lemma filter_lt_upt: "filter (\<lambda>j. j + 7 < n) [0..<n] = [0..<n - 7]"
proof -
  have "[0..<n] = [0..<n - 7] @ [n - 7..<n]"
    using upt_add_eq_append [of 0 "n - 7" "n - (n - 7)"] by simp
  moreover have "filter (\<lambda>j. j + 7 < n) [0..<n - 7] = [0..<n - 7]"
    by (auto simp: filter_id_conv)
  moreover have "filter (\<lambda>j. j + 7 < n) [n - 7..<n] = []"
    by (auto simp: filter_empty_conv)
  ultimately show ?thesis by (metis append_Nil2 filter_append)
qed

lemma send_errors_append [simp]: "send_errors (a @ b) = send_errors a + send_errors b"
  by (simp add: send_errors_def)

lemma writes_and_sleeps_append [simp]:
  "writes_and_sleeps (a @ b) = writes_and_sleeps a @ writes_and_sleeps b"
  by (simp add: writes_and_sleeps_def)

lemma send_errors_dispatch_events:
  "send_errors (dispatch_events bus w js) =
     length (filter (\<lambda>k. bus k mod 2 ^ 64 \<noteq> 2) [w..<w + length js])"
proof (induction js arbitrary: w)
  case Nil
  show ?case by (simp add: send_errors_def)
next
  case (Cons j js)
  have "[w..<w + length (j # js)] = w # [Suc w..<w + length (j # js)]"
    by (rule upt_conv_Cons) simp
  then have "[w..<w + length (j # js)] = w # [Suc w..<Suc w + length js]"
    by simp
  then show ?case
    using Cons.IH [of "Suc w"]
    by (simp add: send_errors_def send_i2c_signal_def data_to_send_def)
qed

lemma send_errors_run_events:
  "send_errors (run_events bus w chunks) =
     length (filter (\<lambda>k. bus k mod 2 ^ 64 \<noteq> 2)
               [w..<w + length (concat (map occurrences chunks))])"
proof (induction chunks arbitrary: w)
  case Nil
  show ?case by (simp add: send_errors_def)
next
  case (Cons c cs)
  let ?n = "length (occurrences c)" and ?m = "length (concat (map occurrences cs))"
  have "[w..<w + (?n + ?m)] = [w..<w + ?n] @ [w + ?n..<w + ?n + ?m]"
    by (metis add.assoc le_add1 upt_add_eq_append)
  then show ?case
    using Cons.IH [of "w + ?n"] by (simp add: send_errors_dispatch_events)
qed

lemma writes_and_sleeps_dispatch_events:
  "writes_and_sleeps (dispatch_events bus w js) =
     concat (replicate (length js) [I2CWrite I2C_ADDR data_to_send, Usleep 10000])"
  by (induction js arbitrary: w) (simp_all add: writes_and_sleeps_def send_i2c_signal_def)

lemma writes_and_sleeps_run_events:
  "writes_and_sleeps (run_events bus w chunks) =
     concat (replicate (length (concat (map occurrences chunks)))
               [I2CWrite I2C_ADDR data_to_send, Usleep 10000])"
  by (induction chunks arbitrary: w)
     (simp_all add: writes_and_sleeps_dispatch_events replicate_add,
      simp add: writes_and_sleeps_def)

lemma found_positions_exit_events [simp]: "found_positions (exit_events rs) = []"
  by (induction rs rule: exit_events.induct) (simp_all add: found_positions_def)

lemma bus_writes_exit_events [simp]: "bus_writes (exit_events rs) = []"
  by (induction rs rule: exit_events.induct) (simp_all add: bus_writes_def)

lemma writes_and_sleeps_exit_events [simp]: "writes_and_sleeps (exit_events rs) = []"
  by (induction rs rule: exit_events.induct) (simp_all add: writes_and_sleeps_def)

lemma send_errors_exit_events [simp]: "send_errors (exit_events rs) = 0"
  by (induction rs rule: exit_events.induct) (simp_all add: send_errors_def)

lemma init_simps [simp]:
  "buffer (init buf) = buf" "reads (init buf) = 0" "writes (init buf) = 0"
  "cmps (init buf) = []" "trace (init buf) = []"
  by (simp_all add: init_def)

lemma run_found:
  "found_positions (trace (state_of (main_loop bus rs (init buf)))) =
     concat (map occurrences (ok_prefix rs))"
  by (simp add: main_loop_trace found_positions_run_events)

text \<open>
  C1 as stated fails. The stream is the signature alone, so it holds exactly one occurrence;
  it is cut after the fourth byte. Neither read holds eight bytes, so neither is compared
  and no match is reported: there is no carry-over from one read to the next.
\<close>

theorem straddling_signature_missed:
  "occurrences ([0x65, 0x62, 0x30, 0x39] @ [0x30, 0x31, 0x34, 0x30]) = [0]
   \<and> found_positions (trace (state_of (main_loop bus_ok
         [ReadOk [0x65, 0x62, 0x30, 0x39], ReadOk [0x30, 0x31, 0x34, 0x30]]
         (init (replicate 1024 0))))) = []"
  by (simp add: scan_loop.simps Let_def memcmp8_def read_into_def dispatch_def
        occurrences_def occurs_at_def PATTERN_def found_positions_def)

text \<open>
  C1, amended: for every byte stream that contains exactly one occurrence of the 8-byte
  signature, and every way of cutting it into chunks, scanning the chunks in order reports
  exactly one match when the occurrence lies wholly inside one chunk, and no match when a
  cut falls strictly inside the signature. Each read is scanned on its own.
\<close>

theorem scan_reports_signature_inside_chunk:
  assumes "occurrences (concat chunks) = [p]"
  shows "length (found_positions (trace (state_of (main_loop bus (map ReadOk chunks) (init buf)))))
           = (if inside_chunk chunks p then 1 else 0)"
proof -
  have "length (found_positions (trace (state_of (main_loop bus (map ReadOk chunks) (init buf)))))
          = length (filter (inside_chunk chunks) (occurrences (concat chunks)))"
    using ok_prefix_map [of chunks "[]"]
    by (simp add: run_found occurrences_chunked del: ok_prefix_map)
  with assms show ?thesis by simp
qed

text \<open>An instance: the signature at offset 1 of the first of two chunks.\<close>

theorem scan_reports_signature_inside_chunk_witness:
  "occurrences (concat [ [0x00, 0x65, 0x62, 0x30, 0x39, 0x30, 0x31, 0x34, 0x30], [0x0a] ]) = [1]
   \<and> length (found_positions (trace (state_of (main_loop bus_ok
         (map ReadOk [ [0x00, 0x65, 0x62, 0x30, 0x39, 0x30, 0x31, 0x34, 0x30], [0x0a] ])
         (init (replicate 1024 0)))))) = 1"
proof -
  have occ: "occurrences (concat [ [0x00, 0x65, 0x62, 0x30, 0x39, 0x30, 0x31, 0x34, 0x30], [0x0a] ]) = [1]"
    by (simp add: occurrences_def occurs_at_def PATTERN_def)
  show ?thesis
    using occ scan_reports_signature_inside_chunk [OF occ, of bus_ok "replicate 1024 0"]
    by simp
qed

text \<open>
  C2 as stated fails. The stream holds one match of the signature, cut after its third byte
  by the boundary between two reads; no bus write is issued for it.
\<close>

theorem cut_signature_dispatches_nothing:
  "occurrences ([0x65, 0x62, 0x30] @ [0x39, 0x30, 0x31, 0x34, 0x30]) = [0]
   \<and> bus_writes (trace (state_of (main_loop bus_ok
         [ReadOk [0x65, 0x62, 0x30], ReadOk [0x39, 0x30, 0x31, 0x34, 0x30]]
         (init (replicate 1024 0))))) = []"
  by (simp add: scan_loop.simps Let_def memcmp8_def read_into_def dispatch_def
        occurrences_def occurs_at_def PATTERN_def bus_writes_def)

text \<open>
  C2, amended: on every match of the trigger signature that lies wholly within one read of
  the monitor stream, the dispatched trigger action is exactly one bus write of the two
  bytes 0x0C, 0x01 to the device at address 0x5a, and the trigger path writes nothing else.
  Whatever the feed and the bus do, the bus writes of a run are one such write for each
  occurrence of the signature within a read, and these are the occurrences in the stream
  that no read boundary cuts.
\<close>

theorem go_write_per_match_inside_read:
  "bus_writes (trace (state_of (main_loop bus rs (init buf))))
     = replicate (length (concat (map occurrences (ok_prefix rs)))) (0x5a, [0x0C, 0x01])
   \<and> length (concat (map occurrences (ok_prefix rs)))
     = length (filter (inside_chunk (ok_prefix rs)) (occurrences (concat (ok_prefix rs))))"
  by (simp add: main_loop_trace bus_writes_run_events occurrences_chunked
        I2C_ADDR_def data_to_send_def)

text \<open>
  An instance: two matches in the stream, the second cut by the read boundary; one write.
\<close>

theorem go_write_per_match_inside_read_witness:
  "occurrences (concat (ok_prefix
       [ReadOk [0x65, 0x62, 0x30, 0x39, 0x30, 0x31, 0x34, 0x30, 0x65, 0x62, 0x30, 0x39],
        ReadOk [0x30, 0x31, 0x34, 0x30]])) = [0, 8]
   \<and> bus_writes (trace (state_of (main_loop bus_ok
       [ReadOk [0x65, 0x62, 0x30, 0x39, 0x30, 0x31, 0x34, 0x30, 0x65, 0x62, 0x30, 0x39],
        ReadOk [0x30, 0x31, 0x34, 0x30]]
       (init (replicate 1024 0))))) = [(0x5a, [0x0C, 0x01])]"
proof -
  have occ: "occurrences (concat (ok_prefix
       [ReadOk [0x65, 0x62, 0x30, 0x39, 0x30, 0x31, 0x34, 0x30, 0x65, 0x62, 0x30, 0x39],
        ReadOk [0x30, 0x31, 0x34, 0x30]])) = [0, 8]"
    by (simp add: occurrences_def occurs_at_def PATTERN_def)
  have ins: "filter (inside_chunk (ok_prefix
       [ReadOk [0x65, 0x62, 0x30, 0x39, 0x30, 0x31, 0x34, 0x30, 0x65, 0x62, 0x30, 0x39],
        ReadOk [0x30, 0x31, 0x34, 0x30]])) [0, 8] = [0]"
    by simp
  show ?thesis
    using go_write_per_match_inside_read [of bus_ok
       "[ReadOk [0x65, 0x62, 0x30, 0x39, 0x30, 0x31, 0x34, 0x30, 0x65, 0x62, 0x30, 0x39],
         ReadOk [0x30, 0x31, 0x34, 0x30]]" "replicate 1024 0"]
    by (simp only: occ ins) simp
qed

text \<open>
  C6: when a read of the feed fails, \<open>main\<close> reports it and returns 1. The failed read is
  its last one (after \<open>length chunks\<close> successful reads it has made one more), whatever
  the feed would deliver afterwards is never asked for, and the last events are the
  \<open>perror\<close> and the two \<open>close\<close> calls.
\<close>

theorem read_fault_ends_main:
  "main_loop bus (map ReadOk chunks @ ReadFail # rest) st
     = Exited 1 (state_of (main_loop bus (map ReadOk chunks @ [ReadFail]) st))
   \<and> reads (state_of (main_loop bus (map ReadOk chunks @ ReadFail # rest) st))
       = reads st + length chunks + 1
   \<and> trace (state_of (main_loop bus (map ReadOk chunks @ ReadFail # rest) st))
       = trace st @ run_events bus (writes st) chunks
           @ [Perror ''Error reading from usbmon'', Close Usbmon_fd, Close I2c_fd]"
proof -
  have "main_loop bus (map ReadOk chunks @ [ReadFail]) st
          = Exited 1 (state_of (main_loop bus (map ReadOk chunks @ [ReadFail]) st))"
    by (rule main_loop_Exited) simp
  then show ?thesis
    by (simp add: main_loop_ignores_rest [of bus chunks rest st] main_loop_reads main_loop_trace)
qed

text \<open>
  An instance, run on the code: one read holding the signature, then a failed read; the read
  that would have followed is never made.
\<close>

theorem read_fault_ends_main_witness:
  "main_loop bus_ok
     (map ReadOk [ [0x65, 0x62, 0x30, 0x39, 0x30, 0x31, 0x34, 0x30] ]
        @ ReadFail # [ReadOk [0x65, 0x62, 0x30, 0x39, 0x30, 0x31, 0x34, 0x30]])
     (init [])
   = Exited 1
       \<lparr>buffer = [0x65, 0x62, 0x30, 0x39, 0x30, 0x31, 0x34, 0x30], reads = 2, writes = 1,
        cmps = [0],
        trace = [PatternFound 0, I2CWrite 0x5a [0x0C, 0x01], SignalSent [0x0C, 0x01], Usleep 10000,
                 Perror ''Error reading from usbmon'', Close Usbmon_fd, Close I2c_fd]\<rparr>"
proof -
  have "state_of (main_loop bus_ok
          (map ReadOk [ [0x65, 0x62, 0x30, 0x39, 0x30, 0x31, 0x34, 0x30] ] @ [ReadFail]) (init []))
        = \<lparr>buffer = [0x65, 0x62, 0x30, 0x39, 0x30, 0x31, 0x34, 0x30], reads = 2, writes = 1,
           cmps = [0],
           trace = [PatternFound 0, I2CWrite 0x5a [0x0C, 0x01], SignalSent [0x0C, 0x01], Usleep 10000,
                    Perror ''Error reading from usbmon'', Close Usbmon_fd, Close I2c_fd]\<rparr>"
    by (simp add: scan_loop.simps Let_def memcmp8_def read_into_def dispatch_def init_def
          PATTERN_def send_i2c_signal_def bus_ok_def I2C_ADDR_def data_to_send_def)
  then show ?thesis
    using read_fault_ends_main [of bus_ok "[ [0x65, 0x62, 0x30, 0x39, 0x30, 0x31, 0x34, 0x30] ]"
            "[ReadOk [0x65, 0x62, 0x30, 0x39, 0x30, 0x31, 0x34, 0x30]]" "init []"]
    by (simp only:)
qed

text \<open>
  C7: for every behaviour of the bus, while the reads succeed \<open>main\<close> stays in its loop,
  the matches it reports are all the occurrences within the chunks (the same as on a bus
  that never fails), and every bus write that failed (returned something other than 2) has
  its \<open>perror\<close> line.
\<close>

theorem failed_bus_write_logged_scan_continues:
  "main_loop bus (map ReadOk chunks) (init buf)
     = Running (state_of (main_loop bus (map ReadOk chunks) (init buf)))
   \<and> found_positions (trace (state_of (main_loop bus (map ReadOk chunks) (init buf))))
       = concat (map occurrences chunks)
   \<and> send_errors (trace (state_of (main_loop bus (map ReadOk chunks) (init buf))))
       = length (filter (\<lambda>k. bus k mod 2 ^ 64 \<noteq> 2)
                   [0..<length (concat (map occurrences chunks))])"
proof -
  have "ReadFail \<notin> set (map ReadOk chunks)" by auto
  then have "main_loop bus (map ReadOk chunks) (init buf)
     = Running (state_of (main_loop bus (map ReadOk chunks) (init buf)))"
    by (rule main_loop_Running)
  moreover have "ok_prefix (map ReadOk chunks) = chunks"
    using ok_prefix_map [of chunks "[]"] by simp
  ultimately show ?thesis
    by (simp add: main_loop_trace found_positions_run_events send_errors_run_events)
qed

text \<open>
  An instance, run on the code: a bus on which every write fails, and two reads holding the
  signature. Both matches are dispatched and logged, and the loop is still running.
\<close>

theorem failed_bus_write_logged_scan_continues_witness:
  "trace (state_of (main_loop bus_dead
      (map ReadOk [ [0x65, 0x62, 0x30, 0x39, 0x30, 0x31, 0x34, 0x30, 0x0a],
                    [0x0a, 0x65, 0x62, 0x30, 0x39, 0x30, 0x31, 0x34, 0x30] ])
      (init [])))
   = [PatternFound 0, I2CWrite 0x5a [0x0C, 0x01], Perror ''Error sending I2C signal'', Usleep 10000,
      PatternFound 1, I2CWrite 0x5a [0x0C, 0x01], Perror ''Error sending I2C signal'', Usleep 10000]
   \<and> main_loop bus_dead
      (map ReadOk [ [0x65, 0x62, 0x30, 0x39, 0x30, 0x31, 0x34, 0x30, 0x0a],
                    [0x0a, 0x65, 0x62, 0x30, 0x39, 0x30, 0x31, 0x34, 0x30] ])
      (init [])
     = Running (state_of (main_loop bus_dead
      (map ReadOk [ [0x65, 0x62, 0x30, 0x39, 0x30, 0x31, 0x34, 0x30, 0x0a],
                    [0x0a, 0x65, 0x62, 0x30, 0x39, 0x30, 0x31, 0x34, 0x30] ])
      (init [])))"
proof -
  have "trace (state_of (main_loop bus_dead
      (map ReadOk [ [0x65, 0x62, 0x30, 0x39, 0x30, 0x31, 0x34, 0x30, 0x0a],
                    [0x0a, 0x65, 0x62, 0x30, 0x39, 0x30, 0x31, 0x34, 0x30] ])
      (init [])))
   = [PatternFound 0, I2CWrite 0x5a [0x0C, 0x01], Perror ''Error sending I2C signal'', Usleep 10000,
      PatternFound 1, I2CWrite 0x5a [0x0C, 0x01], Perror ''Error sending I2C signal'', Usleep 10000]"
    by (simp add: scan_loop.simps Let_def memcmp8_def read_into_def dispatch_def init_def
          PATTERN_def send_i2c_signal_def bus_dead_def I2C_ADDR_def data_to_send_def)
  then show ?thesis
    using failed_bus_write_logged_scan_continues [of bus_dead
            "[ [0x65, 0x62, 0x30, 0x39, 0x30, 0x31, 0x34, 0x30, 0x0a],
               [0x0a, 0x65, 0x62, 0x30, 0x39, 0x30, 0x31, 0x34, 0x30] ]" "[]"]
    by (simp only:)
qed

text \<open>
  C8 as stated fails. The code reads no clock and keeps no time of the last dispatch: three
  fire attempts (three matches, each delivered by a read of its own, however close in time)
  give three bus writes. The second is not dropped.
\<close>

theorem second_attempt_not_suppressed:
  "bus_writes (trace (state_of (main_loop bus_ok
      [ReadOk [0x65, 0x62, 0x30, 0x39, 0x30, 0x31, 0x34, 0x30],
       ReadOk [0x65, 0x62, 0x30, 0x39, 0x30, 0x31, 0x34, 0x30],
       ReadOk [0x65, 0x62, 0x30, 0x39, 0x30, 0x31, 0x34, 0x30]]
      (init (replicate 1024 0)))))
   = [(0x5a, [0x0C, 0x01]), (0x5a, [0x0C, 0x01]), (0x5a, [0x0C, 0x01])]"
  by (simp add: scan_loop.simps Let_def memcmp8_def read_into_def dispatch_def
        PATTERN_def bus_writes_def send_i2c_signal_def bus_ok_def I2C_ADDR_def data_to_send_def)

text \<open>
  C8, amended: the cool-down is a blocking 10 ms sleep after each dispatched action, and no
  fire attempt is suppressed. Whatever the feed and the bus do, every occurrence of the
  signature within a read is reported and fires one bus write followed by \<open>usleep(10000)\<close>,
  in the order found; so of three successive fire attempts the first, the second and the
  third all fire.
\<close>

theorem no_match_suppressed:
  "writes_and_sleeps (trace (state_of (main_loop bus rs (init buf))))
     = concat (replicate (length (concat (map occurrences (ok_prefix rs))))
                 [I2CWrite 0x5a [0x0C, 0x01], Usleep 10000])
   \<and> found_positions (trace (state_of (main_loop bus rs (init buf))))
     = concat (map occurrences (ok_prefix rs))"
  by (simp add: main_loop_trace found_positions_run_events writes_and_sleeps_run_events
        I2C_ADDR_def data_to_send_def)

text \<open>An instance: three fire attempts, three writes, each followed by the sleep.\<close>

theorem no_match_suppressed_witness:
  "concat (map occurrences (ok_prefix
      [ReadOk [0x65, 0x62, 0x30, 0x39, 0x30, 0x31, 0x34, 0x30],
       ReadOk [0x65, 0x62, 0x30, 0x39, 0x30, 0x31, 0x34, 0x30],
       ReadOk [0x65, 0x62, 0x30, 0x39, 0x30, 0x31, 0x34, 0x30]])) = [0, 0, 0]
   \<and> writes_and_sleeps (trace (state_of (main_loop bus_ok
      [ReadOk [0x65, 0x62, 0x30, 0x39, 0x30, 0x31, 0x34, 0x30],
       ReadOk [0x65, 0x62, 0x30, 0x39, 0x30, 0x31, 0x34, 0x30],
       ReadOk [0x65, 0x62, 0x30, 0x39, 0x30, 0x31, 0x34, 0x30]]
      (init (replicate 1024 0)))))
   = [I2CWrite 0x5a [0x0C, 0x01], Usleep 10000,
      I2CWrite 0x5a [0x0C, 0x01], Usleep 10000,
      I2CWrite 0x5a [0x0C, 0x01], Usleep 10000]"
proof -
  have occ: "concat (map occurrences (ok_prefix
      [ReadOk [0x65, 0x62, 0x30, 0x39, 0x30, 0x31, 0x34, 0x30],
       ReadOk [0x65, 0x62, 0x30, 0x39, 0x30, 0x31, 0x34, 0x30],
       ReadOk [0x65, 0x62, 0x30, 0x39, 0x30, 0x31, 0x34, 0x30]])) = [0, 0, 0]"
    by (simp add: occurrences_def occurs_at_def PATTERN_def)
  show ?thesis
    using no_match_suppressed [of bus_ok
      "[ReadOk [0x65, 0x62, 0x30, 0x39, 0x30, 0x31, 0x34, 0x30],
        ReadOk [0x65, 0x62, 0x30, 0x39, 0x30, 0x31, 0x34, 0x30],
        ReadOk [0x65, 0x62, 0x30, 0x39, 0x30, 0x31, 0x34, 0x30]]" "replicate 1024 0"]
    by (simp only: occ) simp
qed

text \<open>
  C9: after a read of \<open>n\<close> bytes the signature is compared exactly at the offsets
  \<open>0, ..., n - 8\<close> (nowhere when \<open>n < 8\<close>), each with \<open>i + 7 < n\<close>, so \<open>memcmp\<close> reads
  only bytes of this read; the matches reported are the occurrences within the chunk, all
  eight bytes inside it, whatever older bytes the buffer still holds behind the chunk.
\<close>

theorem memcmp_within_bytes_read:
  "cmps (state_of (main_loop bus [ReadOk chunk] st)) = cmps st @ [0..<length chunk - 7]
   \<and> (\<forall>i \<in> set [0..<length chunk - 7]. i + 7 < length chunk)
   \<and> found_positions (trace (state_of (main_loop bus [ReadOk chunk] st)))
       = found_positions (trace st) @ occurrences chunk
   \<and> (\<forall>i \<in> set (occurrences chunk). i + 8 \<le> length chunk \<and> take 8 (drop i chunk) = PATTERN)"
proof -
  have "\<forall>i \<in> set (occurrences chunk). i + 8 \<le> length chunk \<and> take 8 (drop i chunk) = PATTERN"
    using occurs_at_length [of chunk] by (auto simp: occurrences_def occurs_at_def)
  moreover have "\<forall>i \<in> set [0..<length chunk - 7]. i + 7 < length chunk"
    by auto
  ultimately show ?thesis
    by (simp add: scan_chunk filter_lt_upt found_positions_dispatch_events)
qed

text \<open>
  An instance: the buffer still holds the signature at offset 3 from an earlier read, and a
  read of 9 bytes rewrites its first nine bytes with the same contents. Offsets 0 and 1 are
  compared; offset 3, where the buffer as a whole matches, is not, and nothing is reported.
\<close>

theorem memcmp_within_bytes_read_witness:
  "take 8 (drop 3 (read_into [0x0a, 0x0a, 0x0a, 0x65, 0x62, 0x30, 0x39, 0x30, 0x31]
       ([0x0a, 0x0a, 0x0a, 0x65, 0x62, 0x30, 0x39, 0x30, 0x31, 0x34, 0x30] @ replicate 1013 0)))
     = PATTERN
   \<and> cmps (state_of (main_loop bus_ok [ReadOk [0x0a, 0x0a, 0x0a, 0x65, 0x62, 0x30, 0x39, 0x30, 0x31]]
       (init ([0x0a, 0x0a, 0x0a, 0x65, 0x62, 0x30, 0x39, 0x30, 0x31, 0x34, 0x30] @ replicate 1013 0))))
     = [0, 1]
   \<and> found_positions (trace (state_of (main_loop bus_ok
       [ReadOk [0x0a, 0x0a, 0x0a, 0x65, 0x62, 0x30, 0x39, 0x30, 0x31]]
       (init ([0x0a, 0x0a, 0x0a, 0x65, 0x62, 0x30, 0x39, 0x30, 0x31, 0x34, 0x30] @ replicate 1013 0)))))
     = []"
proof -
  have occ: "occurrences [0x0a, 0x0a, 0x0a, 0x65, 0x62, 0x30, 0x39, 0x30, 0x31] = []"
    by (simp add: occurrences_def occurs_at_def PATTERN_def)
  have upt: "[0..<length [0x0a, 0x0a, 0x0a, 0x65, 0x62, 0x30, 0x39, 0x30, 0x31 :: byte] - 7] = [0, 1]"
    by (simp add: upt_conv_Cons)
  have stale: "take 8 (drop 3 (read_into [0x0a, 0x0a, 0x0a, 0x65, 0x62, 0x30, 0x39, 0x30, 0x31]
       ([0x0a, 0x0a, 0x0a, 0x65, 0x62, 0x30, 0x39, 0x30, 0x31, 0x34, 0x30] @ replicate 1013 0)))
     = PATTERN"
    by (simp add: read_into_def PATTERN_def)
  show ?thesis
    using memcmp_within_bytes_read [of bus_ok
            "[0x0a, 0x0a, 0x0a, 0x65, 0x62, 0x30, 0x39, 0x30, 0x31]"
            "init ([0x0a, 0x0a, 0x0a, 0x65, 0x62, 0x30, 0x39, 0x30, 0x31, 0x34, 0x30] @ replicate 1013 0)"]
    by (simp only: occ upt stale init_simps found_positions_def append_Nil append_Nil2
          list.map concat.simps simp_thms)
qed


section \<open>The step codec: encoding and decoding\<close>

lemma and_7F: "(b::int) AND 0x7F = b mod 128"
proof -
  have m: "(0x7F::int) = mask 7" by (simp add: mask_eq_exp_minus_1)
  show ?thesis by (simp only: m flip: take_bit_eq_mask) (simp add: take_bit_eq_mod)
qed

lemma and_80: "((b::int) AND 0x80 = 0) = (\<not> bit b 7)"
  using and_exp_eq_0_iff_not_bit [of b 7] by simp

lemma bit7_low: "0 \<le> b \<Longrightarrow> b < 128 \<Longrightarrow> \<not> bit (b::int) 7"
  by (simp add: bit_iff_odd)

lemma bit7_high: "128 \<le> b \<Longrightarrow> b < 256 \<Longrightarrow> bit (b::int) 7"
proof -
  assume "128 \<le> b" "b < 256"
  then have "b div 128 = 1" by simp
  then show ?thesis by (simp add: bit_iff_odd)
qed

lemma or_80: "0 \<le> t \<Longrightarrow> t < 128 \<Longrightarrow> (0x80::int) OR t = 128 + t"
proof -
  assume "0 \<le> t" "t < 128"
  then have "t AND 0x80 = 0" by (simp only: and_80 bit7_low not_False_eq_True)
  then have "0x80 AND t = 0" by (simp add: and.commute)
  then show ?thesis by (rule disjunctive_add_eq_or [symmetric])
qed

lemma encodeSteps_map: "encodeSteps steps = map step_byte (take 8 steps)"
proof -
  have "foldl (\<lambda>out s. out @ [step_byte s]) acc xs = acc @ map step_byte xs" for acc xs
    by (induction xs arbitrary: acc) simp_all
  then show ?thesis by (simp add: encodeSteps_def)
qed

lemma Math_trunc_Num: "Math_trunc (Num x) = Num (real_of_int (trunc_int x))"
  by simp

lemma trunc_int_of_int [simp]: "trunc_int (real_of_int k) = k"
  by (simp add: trunc_int_def)

lemma clamp_Num:
  "Math_max (Num (real_of_int lo)) (Math_min (Num (real_of_int hi)) (Num (real_of_int k)))
     = Num (real_of_int (max lo (min hi k)))"
  by simp

lemma ToInt32_int:
  "- (2 ^ 31) \<le> k \<Longrightarrow> k < 2 ^ 31 \<Longrightarrow> ToInt32 (Num (real_of_int k)) = k"
  by simp

lemma floor_div10: "Math_floor (div10 (Num (real_of_int m))) = Num (real_of_int (m div 10))"
  using floor_divide_of_int_eq [of m 10, where ?'a = real] by simp

lemma wait_ticks_range: "0 \<le> wait_ticks v" "wait_ticks v \<le> 127"
  by (cases v; simp add: wait_ticks_def)+

lemma wait_clamp:
  "Math_min (Num 127) (Math_floor (div10 (Math_max (Num 0) (Math_min (Num 1270) (Math_trunc v)))))
     = (case v of NaN \<Rightarrow> NaN | _ \<Rightarrow> Num (real_of_int (wait_ticks v)))"
proof (cases v)
  case (Num x)
  define k where "k = trunc_int x"
  define m where "m = max 0 (min 1270 k)"
  have "Math_max (Num 0) (Math_min (Num 1270) (Math_trunc v)) = Num (real_of_int m)"
    using clamp_Num [of 0 1270 k] by (simp only: Num Math_trunc_Num k_def m_def of_int_0 of_int_numeral)
  then have "Math_floor (div10 (Math_max (Num 0) (Math_min (Num 1270) (Math_trunc v))))
               = Num (real_of_int (m div 10))"
    by (simp only: floor_div10)
  moreover have "m div 10 \<le> 127" by (simp add: m_def)
  then have "Math_min (Num 127) (Num (real_of_int (m div 10))) = Num (real_of_int (m div 10))"
    by simp
  ultimately show ?thesis
    by (simp add: Num wait_ticks_def k_def m_def)
next
  case PInf
  then show ?thesis using floor_div10 [of 1270] by (simp add: wait_ticks_def)
next
  case NInf
  then show ?thesis using floor_div10 [of 0] by (simp add: wait_ticks_def)
next
  case NaN
  then show ?thesis by simp
qed

lemma step_byte_wait:
  assumes "isWait s"
  shows "step_byte s = Num (real_of_int (128 + wait_ticks (val s)))"
proof -
  let ?t = "wait_ticks (val s)"
  have t: "0 \<le> ?t" "?t \<le> 127" by (rule wait_ticks_range)+
  then have or: "0x80 OR ?t = 128 + ?t" by (intro or_80) simp_all
  have "ToInt32 (case val s of NaN \<Rightarrow> NaN | _ \<Rightarrow> Num (real_of_int ?t)) = ?t"
  proof (cases "val s")
    case NaN
    then show ?thesis by (simp add: wait_ticks_def)
  qed (use t ToInt32_int [of ?t] in \<open>simp_all del: ToInt32.simps\<close>)
  then show ?thesis
    using assms or by (simp only: step_byte_def Let_def wait_clamp if_True)
qed

lemma effect_id_range: "v \<noteq> NaN \<Longrightarrow> 1 \<le> effect_id v \<and> effect_id v \<le> 127"
  by (cases v) (simp_all add: effect_id_def)

lemma step_byte_effect:
  assumes "\<not> isWait s"
  shows "step_byte s = (case val s of NaN \<Rightarrow> NaN | _ \<Rightarrow> Num (real_of_int (effect_id (val s))))"
proof (cases "val s")
  case (Num x)
  show ?thesis
    using assms clamp_Num [of 1 127 "trunc_int x"]
    by (simp only: step_byte_def Let_def Num Math_trunc_Num effect_id_def of_int_1 of_int_numeral
          if_False number.case)
qed (use assms in \<open>simp_all add: step_byte_def effect_id_def\<close>)

lemma valid_step_cases:
  assumes "valid_step s"
  obtains k where "isWait s" "val s = Num (real_of_int k)" "0 \<le> k" "k \<le> 1270" "k mod 10 = 0"
        | k where "\<not> isWait s" "val s = Num (real_of_int k)" "1 \<le> k" "k \<le> 127"
proof -
  from assms obtain x where vx: "val s = Num x" and xi: "x = real_of_int \<lfloor>x\<rfloor>"
    by (cases "val s") (simp_all add: valid_step_def)
  define k where "k = \<lfloor>x\<rfloor>"
  have v: "val s = Num (real_of_int k)" using vx xi by (simp add: k_def)
  show thesis
  proof (cases "isWait s")
    case True
    with assms vx xi have r: "0 \<le> k" "k \<le> 1270" "k mod 10 = 0"
      by (simp_all add: valid_step_def k_def)
    show thesis by (rule that(1) [OF True v r])
  next
    case False
    with assms vx xi have r: "1 \<le> k" "k \<le> 127"
      by (simp_all add: valid_step_def k_def)
    show thesis by (rule that(2) [OF False v r])
  qed
qed

lemma step_byte_valid_wait:
  assumes "isWait s" "val s = Num (real_of_int k)" "0 \<le> k" "k \<le> 1270"
  shows "step_byte s = Num (real_of_int (128 + k div 10))"
    and "ToInt32 (step_byte s) = 128 + k div 10"
    and "ToInt32 (val s) = k"
proof -
  have "wait_ticks (val s) = k div 10"
    using assms by (simp add: wait_ticks_def)
  then show b: "step_byte s = Num (real_of_int (128 + k div 10))"
    using assms(1) by (simp only: step_byte_wait)
  have "0 \<le> k div 10" "k div 10 < 128" using assms by simp_all
  then have "ToInt32 (Num (real_of_int (128 + k div 10))) = 128 + k div 10"
    by (intro ToInt32_int) simp_all
  then show "ToInt32 (step_byte s) = 128 + k div 10" by (simp only: b)
  have "ToInt32 (Num (real_of_int k)) = k" using assms by (intro ToInt32_int) simp_all
  then show "ToInt32 (val s) = k" by (simp only: assms(2))
qed

lemma step_byte_valid_effect:
  assumes "\<not> isWait s" "val s = Num (real_of_int k)" "1 \<le> k" "k \<le> 127"
  shows "step_byte s = Num (real_of_int k)"
    and "ToInt32 (step_byte s) = k"
    and "ToInt32 (val s) = k"
proof -
  show b: "step_byte s = Num (real_of_int k)"
    using assms by (simp add: step_byte_effect effect_id_def)
  have i: "ToInt32 (Num (real_of_int k)) = k" using assms by (intro ToInt32_int) simp_all
  then show "ToInt32 (step_byte s) = k" by (simp only: b)
  from i show "ToInt32 (val s) = k" by (simp only: assms(2))
qed

lemma ui_step_step_byte:
  assumes "valid_step s"
  shows "ui_step (step_byte s) = s"
  using assms
proof (cases s rule: valid_step_cases)
  case (1 k)
  define b where "b = 128 + k div 10"
  have t: "128 \<le> b" "b < 256" using 1 by (simp_all add: b_def)
  have i32: "ToInt32 (step_byte s) = b"
    using step_byte_valid_wait(2) [OF 1(1-4)] by (simp only: b_def)
  have nz: "b AND 0x80 \<noteq> 0" using t bit7_high [of b] by (simp add: and_80)
  have "b mod 128 = k div 10" using 1 by (simp add: b_def)
  moreover have "k div 10 * 10 = k" using 1 by presburger
  ultimately have low: "(b AND 0x7F) * 10 = k" by (simp add: and_7F)
  have "ui_step (step_byte s) = \<lparr>isWait = True, val = Num (real_of_int ((b AND 0x7F) * 10))\<rparr>"
    using nz by (simp only: ui_step_def i32 Let_def if_True simp_thms)
  also have "\<dots> = \<lparr>isWait = True, val = Num (real_of_int k)\<rparr>" by (simp only: low)
  also have "\<dots> = s" using 1(1,2) by simp
  finally show ?thesis .
next
  case (2 k)
  have b: "step_byte s = Num (real_of_int k)" and i32: "ToInt32 (step_byte s) = k"
    using step_byte_valid_effect [OF 2] by simp_all
  have "\<not> bit k 7" using 2 by (intro bit7_low) simp_all
  then have z: "k AND 0x80 = 0" by (simp add: and_80)
  have clamp: "Math_max (Num 1) (Math_min (Num 127) (Num (real_of_int k))) = Num (real_of_int k)"
    using 2 by simp
  have "ui_step (step_byte s) = \<lparr>isWait = False, val = Math_max (Num 1) (Math_min (Num 127) (step_byte s))\<rparr>"
    using z by (simp only: ui_step_def i32 if_False simp_thms)
  also have "\<dots> = \<lparr>isWait = False, val = Num (real_of_int k)\<rparr>" by (simp only: b clamp)
  also have "\<dots> = s" using 2(1,2) by simp
  finally show ?thesis .
qed

lemma step_byte_bits:
  assumes "valid_step s"
  shows "bit (ToInt32 (step_byte s)) 7 = isWait s"
    and "ToInt32 (step_byte s) AND 0x7F
           = (if isWait s then ToInt32 (val s) div 10 else ToInt32 (val s))"
proof -
  have "bit (ToInt32 (step_byte s)) 7 = isWait s
      \<and> ToInt32 (step_byte s) AND 0x7F
           = (if isWait s then ToInt32 (val s) div 10 else ToInt32 (val s))"
    using assms
  proof (cases s rule: valid_step_cases)
    case (1 k)
    define b where "b = 128 + k div 10"
    have t: "128 \<le> b" "b < 256" using 1 by (simp_all add: b_def)
    have i32: "ToInt32 (step_byte s) = b"
      using step_byte_valid_wait(2) [OF 1(1-4)] by (simp only: b_def)
    have vi: "ToInt32 (val s) = k" by (rule step_byte_valid_wait(3) [OF 1(1-4)])
    have "bit b 7" using t by (rule bit7_high)
    moreover have "b mod 128 = k div 10" using 1 by (simp add: b_def)
    ultimately show ?thesis using 1(1) by (simp add: i32 vi and_7F)
  next
    case (2 k)
    have i32: "ToInt32 (step_byte s) = k" and vi: "ToInt32 (val s) = k"
      using step_byte_valid_effect [OF 2] by simp_all
    have "\<not> bit k 7" using 2 by (intro bit7_low) simp_all
    moreover have "k mod 128 = k" using 2 by simp
    ultimately show ?thesis using 2(1) by (simp add: i32 vi and_7F)
  qed
  then show "bit (ToInt32 (step_byte s)) 7 = isWait s"
    and "ToInt32 (step_byte s) AND 0x7F
           = (if isWait s then ToInt32 (val s) div 10 else ToInt32 (val s))"
    by simp_all
qed

text \<open>
  C3: for every sequence of at most 8 valid steps, decoding the encoded bytes gives the
  sequence back; bit 7 of each byte tells a wait from an effect, and the low seven bits hold
  the ticks (the milliseconds divided by 10) of a wait and the id of an effect.
\<close>

theorem decode_encode_roundtrip:
  assumes "length steps \<le> 8" and "\<forall>s \<in> set steps. valid_step s"
  shows "doLoad_uiSteps (encodeSteps steps) = steps
         \<and> map (\<lambda>b. bit (ToInt32 b) 7) (encodeSteps steps) = map isWait steps
         \<and> map (\<lambda>b. ToInt32 b AND 0x7F) (encodeSteps steps)
             = map (\<lambda>s. if isWait s then ToInt32 (val s) div 10 else ToInt32 (val s)) steps"
proof -
  from assms(1) have enc: "encodeSteps steps = map step_byte steps"
    by (simp add: encodeSteps_map)
  have "map ui_step (map step_byte steps) = steps"
    using assms(2) by (simp add: ui_step_step_byte map_idI)
  then have rt: "doLoad_uiSteps (encodeSteps steps) = steps"
    using assms(1) by (simp add: enc doLoad_uiSteps_def)
  have "map (\<lambda>b. bit (ToInt32 b) 7) (map step_byte steps) = map isWait steps"
    using assms(2) by (simp add: step_byte_bits(1) comp_def)
  moreover have "map (\<lambda>b. ToInt32 b AND 0x7F) (map step_byte steps)
          = map (\<lambda>s. if isWait s then ToInt32 (val s) div 10 else ToInt32 (val s)) steps"
    using assms(2) by (simp add: step_byte_bits(2) comp_def)
  ultimately show ?thesis
    using rt by (simp only: enc simp_thms)
qed

text \<open>An instance, with the bytes written out.\<close>

theorem decode_encode_roundtrip_witness:
  "length [\<lparr>isWait = False, val = Num 5\<rparr>, \<lparr>isWait = True, val = Num 100\<rparr>,
           \<lparr>isWait = False, val = Num 127\<rparr>, \<lparr>isWait = True, val = Num 1270\<rparr>,
           \<lparr>isWait = True, val = Num 0\<rparr>] \<le> 8
   \<and> encodeSteps [\<lparr>isWait = False, val = Num 5\<rparr>, \<lparr>isWait = True, val = Num 100\<rparr>,
           \<lparr>isWait = False, val = Num 127\<rparr>, \<lparr>isWait = True, val = Num 1270\<rparr>,
           \<lparr>isWait = True, val = Num 0\<rparr>] = [Num 0x05, Num 0x8A, Num 0x7F, Num 0xFF, Num 0x80]
   \<and> doLoad_uiSteps [Num 0x05, Num 0x8A, Num 0x7F, Num 0xFF, Num 0x80]
       = [\<lparr>isWait = False, val = Num 5\<rparr>, \<lparr>isWait = True, val = Num 100\<rparr>,
           \<lparr>isWait = False, val = Num 127\<rparr>, \<lparr>isWait = True, val = Num 1270\<rparr>,
           \<lparr>isWait = True, val = Num 0\<rparr>]"
proof -
  let ?steps = "[\<lparr>isWait = False, val = Num 5\<rparr>, \<lparr>isWait = True, val = Num 100\<rparr>,
           \<lparr>isWait = False, val = Num 127\<rparr>, \<lparr>isWait = True, val = Num 1270\<rparr>,
           \<lparr>isWait = True, val = Num 0\<rparr>]"
  have len: "length ?steps \<le> 8" by simp
  have valid: "\<forall>s \<in> set ?steps. valid_step s" by (simp add: valid_step_def)
  have enc: "encodeSteps ?steps = [Num 0x05, Num 0x8A, Num 0x7F, Num 0xFF, Num 0x80]"
    by (simp add: encodeSteps_def step_byte_def trunc_int_def)
  show ?thesis
    using decode_encode_roundtrip [OF len valid] len enc by simp
qed

text \<open>
  C4 as stated fails. One effect step is fewer than 8 steps and its byte 0x01 is not a
  terminator, yet \<open>encodeSteps\<close> returns the single byte and no 0x00 after it.
\<close>

theorem encodeSteps_appends_no_terminator:
  "encodeSteps [\<lparr>isWait = False, val = Num 1\<rparr>] = [Num 0x01]
   \<and> encodeSteps [\<lparr>isWait = False, val = Num 1\<rparr>] \<noteq> [Num 0x01, Num 0x00]"
  by (simp add: encodeSteps_def step_byte_def trunc_int_def)

text \<open>
  C4, amended: for every step list \<open>encodeSteps\<close> encodes exactly the first 8 steps, one
  byte per step in order, ignoring any step beyond index 8, and appends no terminator byte
  (the output has as many bytes as steps were encoded; the terminator is left to the backend).
\<close>

theorem encodeSteps_first_eight:
  "encodeSteps steps = map step_byte (take 8 steps)
   \<and> encodeSteps steps = encodeSteps (take 8 steps)
   \<and> length (encodeSteps steps) = min 8 (length steps)"
  by (simp add: encodeSteps_map min.commute)

text \<open>
  C10 does not hold of the code where the value of an effect step is \<open>NaN\<close>: \<open>Math.min\<close>
  and \<open>Math.max\<close> return \<open>NaN\<close> when an argument is \<open>NaN\<close>, so the clamp lets it through
  and the encoder pushes \<open>NaN\<close>, not an id in 1..127. (The wait step beside it encodes to
  0x80, because \<open>|\<close> turns \<open>NaN\<close> into 0.)
\<close>

theorem encodeSteps_passes_NaN:
  "encodeSteps [\<lparr>isWait = False, val = NaN\<rparr>, \<lparr>isWait = True, val = NaN\<rparr>] = [NaN, Num 128]"
  by (simp add: encodeSteps_def step_byte_def)

text \<open>
  On every other input the encoder emits what the comment in the source says (effect
  0x01..0x7F, wait 0x80..0xFF): at most 8 elements, none of them zero; for a wait of any
  value a byte in 0x80..0xFF with bit 7 set, for an effect of any value but \<open>NaN\<close> (the
  infinities included) a byte in 1..127 with bit 7 clear.
\<close>

lemma encoded_bytes_in_range:
  "length (encodeSteps steps) \<le> 8
   \<and> Num 0 \<notin> set (encodeSteps steps)
   \<and> (\<forall>i < length (encodeSteps steps).
         if isWait (steps ! i)
         then \<exists>b. encodeSteps steps ! i = Num (real_of_int b) \<and> 0x80 \<le> b \<and> b \<le> 0xFF \<and> bit b 7
         else if val (steps ! i) = NaN then encodeSteps steps ! i = NaN
         else \<exists>b. encodeSteps steps ! i = Num (real_of_int b) \<and> 1 \<le> b \<and> b \<le> 127 \<and> \<not> bit b 7)"
proof -
  have byte: "if isWait s
         then \<exists>b. step_byte s = Num (real_of_int b) \<and> 0x80 \<le> b \<and> b \<le> 0xFF \<and> bit b 7
         else if val s = NaN then step_byte s = NaN
         else \<exists>b. step_byte s = Num (real_of_int b) \<and> 1 \<le> b \<and> b \<le> 127 \<and> \<not> bit b 7" for s
  proof (cases "isWait s")
    case True
    define b where "b = 128 + wait_ticks (val s)"
    have r: "128 \<le> b" "b < 256" using wait_ticks_range [of "val s"] by (simp_all add: b_def)
    then have "bit b 7" by (rule bit7_high)
    moreover have "step_byte s = Num (real_of_int b)"
      using True by (simp only: step_byte_wait b_def)
    ultimately have "step_byte s = Num (real_of_int b) \<and> 0x80 \<le> b \<and> b \<le> 0xFF \<and> bit b 7"
      using r by simp
    then have "\<exists>b. step_byte s = Num (real_of_int b) \<and> 0x80 \<le> b \<and> b \<le> 0xFF \<and> bit b 7" ..
    with True show ?thesis by (simp only: if_True)
  next
    case False
    show ?thesis
    proof (cases "val s = NaN")
      case True
      with False show ?thesis by (simp add: step_byte_effect)
    next
      case notNaN: False
      define b where "b = effect_id (val s)"
      have r: "1 \<le> b" "b \<le> 127" using effect_id_range [OF notNaN] by (simp_all add: b_def)
      then have "\<not> bit b 7" by (intro bit7_low) simp_all
      moreover have "step_byte s = Num (real_of_int b)"
        using False notNaN by (cases "val s") (simp_all add: step_byte_effect b_def)
      ultimately have "step_byte s = Num (real_of_int b) \<and> 1 \<le> b \<and> b \<le> 127 \<and> \<not> bit b 7"
        using r by simp
      then have "\<exists>b. step_byte s = Num (real_of_int b) \<and> 1 \<le> b \<and> b \<le> 127 \<and> \<not> bit b 7" ..
      with False notNaN show ?thesis by (simp only: if_False)
    qed
  qed
  have nz: "step_byte s \<noteq> Num 0" for s
    using byte [of s] by (auto split: if_splits)
  have "Num 0 \<notin> set (encodeSteps steps)"
  proof
    assume "Num 0 \<in> set (encodeSteps steps)"
    then obtain s where "step_byte s = Num 0" by (auto simp: encodeSteps_map)
    with nz show False by simp
  qed
  moreover have "\<forall>i < length (encodeSteps steps).
         if isWait (steps ! i)
         then \<exists>b. encodeSteps steps ! i = Num (real_of_int b) \<and> 0x80 \<le> b \<and> b \<le> 0xFF \<and> bit b 7
         else if val (steps ! i) = NaN then encodeSteps steps ! i = NaN
         else \<exists>b. encodeSteps steps ! i = Num (real_of_int b) \<and> 1 \<le> b \<and> b \<le> 127 \<and> \<not> bit b 7"
  proof (intro allI impI)
    fix i assume "i < length (encodeSteps steps)"
    then have i: "i < 8" "i < length steps" by (simp_all add: encodeSteps_map)
    then have e: "encodeSteps steps ! i = step_byte (steps ! i)"
      by (simp add: encodeSteps_map)
    show "if isWait (steps ! i)
         then \<exists>b. encodeSteps steps ! i = Num (real_of_int b) \<and> 0x80 \<le> b \<and> b \<le> 0xFF \<and> bit b 7
         else if val (steps ! i) = NaN then encodeSteps steps ! i = NaN
         else \<exists>b. encodeSteps steps ! i = Num (real_of_int b) \<and> 1 \<le> b \<and> b \<le> 127 \<and> \<not> bit b 7"
      using byte [of "steps ! i"] by (simp only: e)
  qed
  ultimately show ?thesis by (simp add: encodeSteps_map)
qed

text \<open>
  C5: when a step list holds an Effect whose id exceeds the cap of the selected library or
  the global cap 123, \<open>programSequence\<close> fails with \<open>OutOfRange\<close> and leaves the
  controller as it was: no bus write, sequencer registers unchanged.
\<close>

theorem programSequence_rejects_out_of_range:
  assumes "\<exists>s \<in> set steps. \<not> isWait s \<and>
             (exceeds (val s) (effectMax (libById (library c))) \<or> exceeds (val s) 123)"
  shows "programSequence addrs steps c = (Inl OutOfRange, c)
         \<and> bus_log (snd (programSequence addrs steps c)) = bus_log c
         \<and> sequencer (snd (programSequence addrs steps c)) = sequencer c"
proof -
  from assms have "list_ex (\<lambda>s. \<not> isWait s \<and>
                (exceeds (val s) (effectMax (libById (library c)))
                 \<or> exceeds (val s) EFFECT_ID_MAX)) steps"
    by (simp add: list_ex_iff EFFECT_ID_MAX_def)
  then show ?thesis by (simp add: programSequence_def)
qed

text \<open>The scenario of the specification: \<open>Effect(200)\<close> on library 1, whose cap is 127.\<close>

theorem programSequence_rejects_out_of_range_witness:
  "(\<exists>s \<in> set [\<lparr>isWait = False, val = Num 200\<rparr>]. \<not> isWait s \<and>
       (exceeds (val s) (effectMax (libById (library \<lparr>library = 1, bus_log = [], sequencer = []\<rparr>)))
        \<or> exceeds (val s) 123))
   \<and> effectMax (libById 1) = 127
   \<and> programSequence [0x5a] [\<lparr>isWait = False, val = Num 200\<rparr>] \<lparr>library = 1, bus_log = [], sequencer = []\<rparr>
       = (Inl OutOfRange, \<lparr>library = 1, bus_log = [], sequencer = []\<rparr>)"
proof -
  have h: "\<exists>s \<in> set [\<lparr>isWait = False, val = Num 200\<rparr>]. \<not> isWait s \<and>
       (exceeds (val s) (effectMax (libById (library \<lparr>library = 1, bus_log = [], sequencer = []\<rparr>)))
        \<or> exceeds (val s) 123)"
    by (simp add: libById_def LIBRARIES_def)
  have cap: "effectMax (libById 1) = 127" by (simp add: libById_def LIBRARIES_def)
  show ?thesis
    using h cap programSequence_rejects_out_of_range [OF h, of "[0x5a]"] by simp
qed

end
